theory Spec2Isabelle
  imports Main "HOL-Library.Multiset"
begin

section \<open>Data model\<close>

text \<open>
  A row of the participants' frame. The draw reads three columns: the last name
  (\<open>NOM\<close>), the first name and the category; \<open>Email\<close> is only read when messages are
  sent. Cells hold text. The category cell is \<open>None\<close> exactly when the loader created the
  column itself (line 19), and Python's \<open>!=\<close> on text and on \<open>None\<close> is plain
  inequality. Empty spreadsheet cells (floating-point not-a-number values) are outside
  this model.
\<close>

record participant =
  NOM :: string
  Prenom :: string
  Email :: string
  Categorie :: "string option"



text \<open>The one exception raised by the draw, and the out-of-range read of \<open>iloc\<close>.\<close>

datatype error = DrawInfeasible | IndexError

text \<open>
  The dictionary \<open>matched\<close>: an association list in insertion order, which is the
  iteration order of a Python dictionary.
\<close>

type_synonym matching = "(nat \<times> nat) list"

section \<open>The program\<close>

subsection \<open>\<open>load_participants\<close>\<close>


subsection \<open>\<open>filter_valid_pairs\<close>\<close>

text \<open>
  \<open>participants.iterrows()\<close>: the rows with their index labels. A frame read from a
  sheet has the labels \<open>0, 1, ..., N - 1\<close>, so a label is also the row's position.
\<close>

definition iterrows :: "participant list \<Rightarrow> (nat \<times> participant) list" where
  "iterrows participants = zip [0..<length participants] participants"

text \<open>The test of line 36.\<close>

definition valid_pair :: "participant \<Rightarrow> participant \<Rightarrow> bool" where
  "valid_pair giver receiver \<longleftrightarrow>
     (NOM giver \<noteq> NOM receiver \<or> Prenom giver \<noteq> Prenom receiver)
     \<and> Categorie giver \<noteq> Categorie receiver"

definition filter_valid_pairs :: "participant list \<Rightarrow> (nat \<times> nat) list" where
  "filter_valid_pairs participants =
     concat (map (\<lambda>(i, giver).
       concat (map (\<lambda>(j, receiver). if valid_pair giver receiver then [(i, j)] else [])
         (iterrows participants)))
       (iterrows participants))"

subsection \<open>\<open>secret_santa_draw\<close>\<close>

definition keys :: "matching \<Rightarrow> nat list" where
  "keys matched = map fst matched"

definition vals :: "matching \<Rightarrow> nat list" where
  "vals matched = map snd matched"

text \<open>Lines 55 and 56: the pair is stored when the giver is no key and the receiver no value.\<close>

definition commit :: "matching \<Rightarrow> nat \<times> nat \<Rightarrow> matching" where
  "commit matched p =
     (if fst p \<notin> set (keys matched) \<and> snd p \<notin> set (vals matched)
      then matched @ [p] else matched)"

text \<open>
  The loop of lines 54 to 58, for a frame of \<open>n\<close> rows: after each pair the size of
  \<open>matched\<close> is compared with \<open>n\<close>, and the loop is left when they are equal.
\<close>

fun scan_pairs :: "nat \<Rightarrow> (nat \<times> nat) list \<Rightarrow> matching \<Rightarrow> matching" where
  "scan_pairs n [] matched = matched"
| "scan_pairs n (p # pairs) matched =
     (let matched' = commit matched p
      in if length matched' = n then matched' else scan_pairs n pairs matched')"

text \<open>\<open>participants.iloc[i]\<close> for an index that is not negative.\<close>

definition iloc :: "participant list \<Rightarrow> nat \<Rightarrow> error + participant" where
  "iloc participants i =
     (if i < length participants then Inr (participants ! i) else Inl IndexError)"

text \<open>The comprehension of line 63 over \<open>matched.items()\<close>.\<close>

fun results_of :: "participant list \<Rightarrow> matching \<Rightarrow> error + (participant \<times> participant) list" where
  "results_of participants [] = Inr []"
| "results_of participants ((giver, receiver) # matched) =
     (case iloc participants giver of
        Inl e \<Rightarrow> Inl e
      | Inr g \<Rightarrow>
          (case iloc participants receiver of
             Inl e \<Rightarrow> Inl e
           | Inr r \<Rightarrow>
               (case results_of participants matched of
                  Inl e \<Rightarrow> Inl e
                | Inr rest \<Rightarrow> Inr ((g, r) # rest))))"

text \<open>
  The dictionary \<open>matched\<close> as it stands at line 60. The random source is the parameter
  \<open>shuffle\<close>: what \<open>random.shuffle\<close> makes of the list of pairs in this run.
\<close>

definition draw_matched ::
  "((nat \<times> nat) list \<Rightarrow> (nat \<times> nat) list) \<Rightarrow> participant list \<Rightarrow> matching" where
  "draw_matched shuffle participants =
     scan_pairs (length participants) (shuffle (filter_valid_pairs participants)) []"

definition secret_santa_draw ::
  "((nat \<times> nat) list \<Rightarrow> (nat \<times> nat) list) \<Rightarrow> participant list
     \<Rightarrow> error + (participant \<times> participant) list" where
  "secret_santa_draw shuffle participants =
     (let matched = draw_matched shuffle participants
      in if length matched \<noteq> length participants then Inl DrawInfeasible
         else results_of participants matched)"

section \<open>Notions of the specification\<close>

text \<open>
  The greedy scan of the whole list, with no early exit: the assignment "after scanning
  all candidate pairs".
\<close>

fun scan_all :: "(nat \<times> nat) list \<Rightarrow> matching \<Rightarrow> matching" where
  "scan_all [] matched = matched"
| "scan_all (p # pairs) matched = scan_all pairs (commit matched p)"

text \<open>
  What \<open>random.shuffle\<close> can do in a run: the outcome is a rearrangement of the
  candidate pairs.
\<close>

definition rearranges :: "((nat \<times> nat) list \<Rightarrow> (nat \<times> nat) list) \<Rightarrow> participant list \<Rightarrow> bool" where
  "rearranges shuffle participants \<longleftrightarrow>
     mset (shuffle (filter_valid_pairs participants)) = mset (filter_valid_pairs participants)"

text \<open>
  A partial assignment over \<open>n\<close> participants: no giver and no receiver occurs twice,
  and givers and receivers are participant indices.
\<close>

definition partial_matching :: "nat \<Rightarrow> matching \<Rightarrow> bool" where
  "partial_matching n matched \<longleftrightarrow>
     distinct (keys matched) \<and> distinct (vals matched)
     \<and> set (keys matched) \<subseteq> {0..<n} \<and> set (vals matched) \<subseteq> {0..<n}"

text \<open>
  The successive values of \<open>matched\<close> during the loop of lines 54 to 58: one per
  iteration, up to the iteration that leaves the loop.
\<close>

fun scan_trace :: "nat \<Rightarrow> (nat \<times> nat) list \<Rightarrow> matching \<Rightarrow> matching list" where
  "scan_trace n [] matched = []"
| "scan_trace n (p # pairs) matched =
     (let matched' = commit matched p
      in matched' # (if length matched' = n then [] else scan_trace n pairs matched'))"

text \<open>
  Sample rows: two adults and two children, as in the scenario of the specification,
  and two rows of a sheet without a category column.
\<close>

definition alice :: participant where
  "alice = \<lparr>NOM = ''Martin'', Prenom = ''Alice'', Email = ''alice@example.com'', Categorie = Some ''Adult''\<rparr>"

definition bob :: participant where
  "bob = \<lparr>NOM = ''Martin'', Prenom = ''Bob'', Email = ''bob@example.com'', Categorie = Some ''Adult''\<rparr>"

definition carol :: participant where
  "carol = \<lparr>NOM = ''Durand'', Prenom = ''Carol'', Email = ''carol@example.com'', Categorie = Some ''Child''\<rparr>"

definition dave :: participant where
  "dave = \<lparr>NOM = ''Durand'', Prenom = ''Dave'', Email = ''dave@example.com'', Categorie = Some ''Child''\<rparr>"



text \<open>
A row with a third category.
\<close>

definition erin :: participant where
  "erin = \<lparr>NOM = ''Petit'', Prenom = ''Erin'', Email = ''erin@example.com'', Categorie = Some ''Senior''\<rparr>"

text \<open>
  A complete valid assignment: every participant index is a giver exactly once and a
  receiver exactly once, and every pair passes the test of line 36.
\<close>

definition perfect_matching :: "participant list \<Rightarrow> matching \<Rightarrow> bool" where
  "perfect_matching ps f \<longleftrightarrow>
     distinct (keys f) \<and> set (keys f) = {0..<length ps}
     \<and> distinct (vals f) \<and> set (vals f) = {0..<length ps}
     \<and> list_all (\<lambda>(i, j). valid_pair (ps ! i) (ps ! j)) f"

text \<open>
  A shuffle outcome: the second and the third pair of the list change places.
\<close>

definition trap_order :: "(nat \<times> nat) list \<Rightarrow> (nat \<times> nat) list" where
  "trap_order pairs = (case pairs of a # b # c # rest \<Rightarrow> a # c # b # rest | _ \<Rightarrow> pairs)"

section \<open>Lemmas\<close>

subsection \<open>The candidate pairs\<close>

lemma iterrows_set:
  "set (iterrows ps) = {(i, p). i < length ps \<and> p = ps ! i}"
  by (force simp: iterrows_def set_zip)

lemma filter_valid_pairs_set:
  "set (filter_valid_pairs ps) =
     {(i, j). i < length ps \<and> j < length ps \<and> valid_pair (ps ! i) (ps ! j)}"
  by (auto simp: filter_valid_pairs_def iterrows_set split: if_splits)






subsection \<open>The greedy scan\<close>


lemma scan_pairs_preserves:
  assumes "\<And>m p. P m \<Longrightarrow> p \<in> set xs \<Longrightarrow> P (commit m p)" "P m"
  shows "P (scan_pairs n xs m)"
  using assms by (induction xs arbitrary: m) (auto simp: Let_def)

lemma scan_all_preserves:
  assumes "\<And>m p. P m \<Longrightarrow> p \<in> set xs \<Longrightarrow> P (commit m p)" "P m"
  shows "P (scan_all xs m)"
  using assms by (induction xs arbitrary: m) auto



lemma scan_all_stuck:
  "fst ` set xs \<subseteq> set (keys m) \<Longrightarrow> scan_all xs m = m"
  by (induction xs) (auto simp: commit_def)

lemma keys_full:
  assumes "distinct (keys m)" "set (keys m) \<subseteq> {0..<n}" "length m = n"
  shows "set (keys m) = {0..<n}"
proof -
  have "card (set (keys m)) = length (keys m)" using assms(1) by (rule distinct_card)
  then have "card (set (keys m)) = n" using assms(3) by (simp add: keys_def)
  then show ?thesis using assms(2) by (simp add: card_subset_eq)
qed

lemma scan_pairs_eq_scan_all:
  assumes "distinct (keys m)" "set (keys m) \<subseteq> {0..<n}" "fst ` set xs \<subseteq> {0..<n}"
  shows "scan_pairs n xs m = scan_all xs m"
  using assms
proof (induction xs arbitrary: m)
  case Nil show ?case by simp
next
  case (Cons p xs)
  let ?m' = "commit m p"
  have d: "distinct (keys ?m')" and s: "set (keys ?m') \<subseteq> {0..<n}"
    using Cons.prems by (auto simp: commit_def keys_def)
  show ?case
  proof (cases "length ?m' = n")
    case True
    then have "set (keys ?m') = {0..<n}" using d s by (simp add: keys_full)
    then have "scan_all xs ?m' = ?m'" using Cons.prems(3) by (intro scan_all_stuck) auto
    with True show ?thesis by simp
  next
    case False
    then show ?thesis using Cons.IH[OF d s] Cons.prems(3) by simp
  qed
qed

lemma scan_pairs_last_trace: "scan_pairs n xs m = last (m # scan_trace n xs m)"
  by (induction xs arbitrary: m) (auto simp: Let_def)

lemma scan_trace_preserves:
  assumes "\<And>m p. P m \<Longrightarrow> p \<in> set xs \<Longrightarrow> P (commit m p)" "P m" "m' \<in> set (scan_trace n xs m)"
  shows "P m'"
  using assms by (induction xs arbitrary: m) (auto simp: Let_def split: if_splits)

lemma full_range:
  assumes "distinct (xs :: nat list)" "set xs \<subseteq> {0..<n}" "length xs = n"
  shows "set xs = {0..<n}"
proof -
  have "card (set xs) = n" using assms(1,3) by (simp add: distinct_card)
  then show ?thesis using assms(2) by (simp add: card_subset_eq)
qed

lemma length_le_range:
  assumes "distinct (xs :: nat list)" "set xs \<subseteq> {0..<n}"
  shows "length xs \<le> n"
proof -
  have "card (set xs) \<le> card {0..<n}" using assms(2) by (intro card_mono) auto
  then show ?thesis using assms(1) by (simp add: distinct_card)
qed

lemma commit_partial_matching:
  "partial_matching n m \<Longrightarrow> fst p < n \<Longrightarrow> snd p < n \<Longrightarrow> partial_matching n (commit m p)"
  by (auto simp: partial_matching_def commit_def keys_def vals_def)

lemma commit_subset: "set m \<subseteq> A \<Longrightarrow> p \<in> A \<Longrightarrow> set (commit m p) \<subseteq> A"
  by (auto simp: commit_def)

lemma results_of_Inr:
  "set (keys m) \<subseteq> {0..<length ps} \<Longrightarrow> set (vals m) \<subseteq> {0..<length ps} \<Longrightarrow>
     results_of ps m = Inr (map (\<lambda>(g, r). (ps ! g, ps ! r)) m)"
  by (induction m) (auto simp: keys_def vals_def iloc_def)

subsection \<open>The draw on a shuffled list of candidate pairs\<close>

lemma rearranges_set: "rearranges sh ps \<Longrightarrow> set (sh (filter_valid_pairs ps)) = set (filter_valid_pairs ps)"
  unfolding rearranges_def by (rule mset_eq_setD)


lemma rearranges_in_range:
  assumes "rearranges sh ps" "p \<in> set (sh (filter_valid_pairs ps))"
  shows "fst p < length ps" "snd p < length ps" "valid_pair (ps ! fst p) (ps ! snd p)"
  using assms by (auto simp: rearranges_set filter_valid_pairs_set)

lemma draw_matched_subset:
  assumes "rearranges sh ps"
  shows "set (draw_matched sh ps) \<subseteq> set (filter_valid_pairs ps)"
  unfolding draw_matched_def
  by (rule scan_pairs_preserves) (simp_all add: rearranges_set[OF assms] commit_subset)

lemma draw_matched_partial:
  assumes "rearranges sh ps"
  shows "partial_matching (length ps) (draw_matched sh ps)"
  unfolding draw_matched_def
proof (rule scan_pairs_preserves)
  show "partial_matching (length ps) []" by (simp add: partial_matching_def keys_def vals_def)
next
  fix m p assume "partial_matching (length ps) m" "p \<in> set (sh (filter_valid_pairs ps))"
  then show "partial_matching (length ps) (commit m p)"
    using rearranges_in_range[OF assms] by (intro commit_partial_matching)
qed

lemma draw_matched_scan_all:
  assumes "rearranges sh ps"
  shows "draw_matched sh ps = scan_all (sh (filter_valid_pairs ps)) []"
  unfolding draw_matched_def
  by (rule scan_pairs_eq_scan_all) (auto simp: keys_def rearranges_set[OF assms] filter_valid_pairs_set)

lemma draw_matched_length_le:
  assumes "rearranges sh ps"
  shows "length (draw_matched sh ps) \<le> length ps"
proof -
  have "partial_matching (length ps) (draw_matched sh ps)"
    by (rule draw_matched_partial[OF assms])
  then have "length (keys (draw_matched sh ps)) \<le> length ps"
    unfolding partial_matching_def by (intro length_le_range) auto
  then show ?thesis by (simp add: keys_def)
qed

lemma draw_success:
  assumes "rearranges sh ps"
  shows "secret_santa_draw sh ps =
     (if length (draw_matched sh ps) < length ps then Inl DrawInfeasible
      else Inr (map (\<lambda>(g, r). (ps ! g, ps ! r)) (draw_matched sh ps)))"
proof -
  have pm: "partial_matching (length ps) (draw_matched sh ps)"
    by (rule draw_matched_partial[OF assms])
  have le: "length (draw_matched sh ps) \<le> length ps"
    by (rule draw_matched_length_le[OF assms])
  have "results_of ps (draw_matched sh ps) = Inr (map (\<lambda>(g, r). (ps ! g, ps ! r)) (draw_matched sh ps))"
    using pm unfolding partial_matching_def by (intro results_of_Inr) auto
  then show ?thesis using le by (auto simp: secret_santa_draw_def Let_def)
qed

subsection \<open>Sample runs\<close>

lemma rearranges_rev: "rearranges rev ps"
  by (simp add: rearranges_def)


lemma draw_alice_carol: "secret_santa_draw rev [alice, carol] = Inr [(carol, alice), (alice, carol)]"
  by code_simp

lemma matched_alice_carol: "draw_matched rev [alice, carol] = [(1, 0), (0, 1)]"
  by code_simp

subsection \<open>A run where the greedy scan gets stuck\<close>

lemma trap_order_mset: "mset (trap_order xs) = mset xs"
  by (simp add: trap_order_def split: list.splits)

lemma trap_pairs: "trap_order (filter_valid_pairs [alice, carol, erin])
    = [(0, 1), (1, 0), (0, 2), (1, 2), (2, 0), (2, 1)]"
  by code_simp

lemma trap_run: "secret_santa_draw trap_order [alice, carol, erin] = Inl DrawInfeasible"
  by code_simp

lemma trap_perfect: "perfect_matching [alice, carol, erin] [(0, 1), (1, 2), (2, 0)]"
  by code_simp

subsection \<open>The scanned assignment cannot be extended\<close>

lemma scan_all_mono: "set m \<subseteq> set (scan_all xs m)"
  by (rule scan_all_preserves) (auto simp: commit_def)

lemma scan_all_maximal:
  "(i, j) \<in> set xs \<Longrightarrow> i \<in> set (keys (scan_all xs m)) \<or> j \<in> set (vals (scan_all xs m))"
proof (induction xs arbitrary: m)
  case Nil then show ?case by simp
next
  case (Cons p xs)
  show ?case
  proof (cases "(i, j) = p")
    case True
    then have "i \<in> set (keys (commit m p)) \<or> j \<in> set (vals (commit m p))"
      by (force simp: commit_def keys_def vals_def)
    moreover have "set (commit m p) \<subseteq> set (scan_all xs (commit m p))" by (rule scan_all_mono)
    ultimately show ?thesis by (auto simp: keys_def vals_def)
  next
    case False
    with Cons.prems have "(i, j) \<in> set xs" by auto
    from Cons.IH[OF this] show ?thesis by simp
  qed
qed

lemma two_by_two_stuck:
  assumes G: "card G = 2" and R: "card R = 2" and g: "g \<in> G" "g \<notin> set (keys m)"
    and used: "\<And>j. j \<in> R \<Longrightarrow> j \<in> set (vals m)"
    and givers: "\<And>i j. (i, j) \<in> set m \<Longrightarrow> j \<in> R \<Longrightarrow> i \<in> G"
    and d: "distinct (keys m)"
  shows False
proof -
  define S where "S = {p \<in> set m. snd p \<in> R}"
  have fS: "finite S" by (simp add: S_def)
  have "R \<subseteq> snd ` S" using used by (force simp: S_def vals_def)
  then have "card R \<le> card (snd ` S)" using fS by (intro card_mono) auto
  also have "\<dots> \<le> card S" using fS by (rule card_image_le)
  also have "card S = card (fst ` S)"
  proof -
    have "inj_on fst (set m)" using d by (simp add: keys_def distinct_map)
    then have "inj_on fst S" by (rule inj_on_subset) (auto simp: S_def)
    then show ?thesis by (simp add: card_image)
  qed
  also have "\<dots> \<le> card (G - {g})"
  proof (rule card_mono)
    show "finite (G - {g})" using G by (simp add: card_ge_0_finite)
    show "fst ` S \<subseteq> G - {g}" using givers g(2) by (force simp: S_def keys_def)
  qed
  also have "\<dots> = 1" using G g(1) by (simp add: card_ge_0_finite)
  finally show False using R by simp
qed

lemma two_categories_complete:
  assumes sh: "rearranges sh ps" and len: "length ps = 4"
    and ids: "distinct (map (\<lambda>p. (NOM p, Prenom p)) ps)"
    and ca: "length (filter (\<lambda>p. Categorie p = a) ps) = 2"
    and cb: "length (filter (\<lambda>p. Categorie p = b) ps) = 2"
    and ab: "a \<noteq> b"
  shows "length (draw_matched sh ps) = length ps"
proof (rule ccontr)
  let ?m = "draw_matched sh ps"
  let ?xs = "sh (filter_valid_pairs ps)"
  define A where "A = {i. i < length ps \<and> Categorie (ps ! i) = a}"
  define B where "B = {i. i < length ps \<and> Categorie (ps ! i) = b}"
  have cA: "card A = 2" and cB: "card B = 2"
    using ca cb by (simp_all add: A_def B_def length_filter_conv_card)
  have fin: "finite A" "finite B" by (simp_all add: A_def B_def)
  have disj: "A \<inter> B = {}" using ab by (auto simp: A_def B_def)
  have "A \<union> B \<subseteq> {0..<length ps}" by (auto simp: A_def B_def)
  moreover have "card (A \<union> B) = card {0..<length ps}"
    using cA cB fin disj len by (simp add: card_Un_disjoint)
  ultimately have cover: "A \<union> B = {0..<length ps}" by (simp add: card_subset_eq)
  have pm: "partial_matching (length ps) ?m" by (rule draw_matched_partial[OF sh])
  have sub: "set ?m \<subseteq> set (filter_valid_pairs ps)" by (rule draw_matched_subset[OF sh])
  have m_all: "?m = scan_all ?xs []" by (rule draw_matched_scan_all[OF sh])
  have cross: "(i, j) \<in> set ?xs" if "i \<in> A \<and> j \<in> B \<or> i \<in> B \<and> j \<in> A" for i j
  proof -
    have r: "i < length ps" "j < length ps" "Categorie (ps ! i) \<noteq> Categorie (ps ! j)"
      using that ab by (auto simp: A_def B_def)
    then have "i \<noteq> j" by auto
    with r ids have "(NOM (ps ! i), Prenom (ps ! i)) \<noteq> (NOM (ps ! j), Prenom (ps ! j))"
      using nth_eq_iff_index_eq[OF ids, of i j] by simp
    with r show ?thesis by (auto simp: rearranges_set[OF sh] filter_valid_pairs_set valid_pair_def)
  qed
  have cats: "i < length ps \<and> Categorie (ps ! i) \<noteq> Categorie (ps ! j)"
    if "(i, j) \<in> set ?m" for i j
    using that sub by (auto simp: filter_valid_pairs_set valid_pair_def)
  have other: "i \<in> A" if "(i, j) \<in> set ?m" "j \<in> B" for i j
  proof -
    from cats[OF that(1)] have "i \<in> A \<union> B" unfolding cover by simp
    moreover from cats[OF that(1)] that(2) have "i \<notin> B" by (simp add: B_def)
    ultimately show ?thesis by blast
  qed
  have other': "i \<in> B" if "(i, j) \<in> set ?m" "j \<in> A" for i j
  proof -
    from cats[OF that(1)] have "i \<in> A \<union> B" unfolding cover by simp
    moreover from cats[OF that(1)] that(2) have "i \<notin> A" by (simp add: A_def)
    ultimately show ?thesis by blast
  qed
  assume "length ?m \<noteq> length ps"
  moreover have "card (set (keys ?m)) = length ?m"
    using pm distinct_card[of "keys ?m"] by (simp add: partial_matching_def keys_def)
  ultimately have "set (keys ?m) \<noteq> {0..<length ps}"
    by auto
  moreover have "set (keys ?m) \<subseteq> {0..<length ps}"
    using pm by (simp add: partial_matching_def)
  ultimately obtain g where g: "g < length ps" "g \<notin> set (keys ?m)"
    by fastforce
  have maxi: "j \<in> set (vals ?m)" if "(g, j) \<in> set ?xs" for j
    using scan_all_maximal[OF that, of "[]"] g(2) m_all by simp
  have d: "distinct (keys ?m)" using pm by (simp add: partial_matching_def)
  from g(1) have "g \<in> A \<union> B" unfolding cover by simp
  then have "g \<in> A \<or> g \<in> B" by blast
  then show False
  proof
    assume gA: "g \<in> A"
    have u: "j \<in> set (vals ?m)" if "j \<in> B" for j
      using that gA by (intro maxi cross) simp
    show False by (rule two_by_two_stuck[OF cA cB gA g(2) u other d])
  next
    assume gB: "g \<in> B"
    have u: "j \<in> set (vals ?m)" if "j \<in> A" for j
      using that gB by (intro maxi cross) simp
    show False by (rule two_by_two_stuck[OF cB cA gB g(2) u other' d])
  qed
qed

subsection \<open>Which pairs the scan commits\<close>






section \<open>The claims\<close>



text \<open>
  C2. Whatever the participants and the shuffle outcome, every value of \<open>matched\<close>
  during the scan is injective with givers and receivers among the participant indices,
  and when the draw returns, every participant index occurs exactly once as a giver and
  exactly once as a receiver of the assignment returned.
\<close>

theorem draw_bijection:
  assumes "rearranges shuffle ps"
  shows "(\<forall>m \<in> set (scan_trace (length ps) (shuffle (filter_valid_pairs ps)) []).
            partial_matching (length ps) m)
     \<and> (\<forall>res. secret_santa_draw shuffle ps = Inr res \<longrightarrow>
           distinct (keys (draw_matched shuffle ps))
           \<and> set (keys (draw_matched shuffle ps)) = {0..<length ps}
           \<and> distinct (vals (draw_matched shuffle ps))
           \<and> set (vals (draw_matched shuffle ps)) = {0..<length ps}
           \<and> res = map (\<lambda>(g, r). (ps ! g, ps ! r)) (draw_matched shuffle ps))"
proof (intro conjI ballI allI impI)
  fix m assume "m \<in> set (scan_trace (length ps) (shuffle (filter_valid_pairs ps)) [])"
  then show "partial_matching (length ps) m"
  proof (rule scan_trace_preserves[rotated 2])
    show "partial_matching (length ps) []"
      by (simp add: partial_matching_def keys_def vals_def)
  next
    fix m p assume "partial_matching (length ps) m" "p \<in> set (shuffle (filter_valid_pairs ps))"
    then show "partial_matching (length ps) (commit m p)"
      using rearranges_in_range[OF assms] by (intro commit_partial_matching)
  qed
next
  fix res assume ok: "secret_santa_draw shuffle ps = Inr res"
  let ?m = "draw_matched shuffle ps"
  have pm: "partial_matching (length ps) ?m" by (rule draw_matched_partial[OF assms])
  have len: "length ?m = length ps"
    using ok by (auto simp: secret_santa_draw_def Let_def split: if_splits)
  have res: "res = map (\<lambda>(g, r). (ps ! g, ps ! r)) ?m"
    using ok draw_success[OF assms] by (simp split: if_splits)
  show "distinct (keys ?m)" "distinct (vals ?m)"
    using pm by (simp_all add: partial_matching_def)
  show "set (keys ?m) = {0..<length ps}"
    using pm len by (intro full_range) (simp_all add: partial_matching_def keys_def)
  show "set (vals ?m) = {0..<length ps}"
    using pm len by (intro full_range) (simp_all add: partial_matching_def vals_def)
  show "res = map (\<lambda>(g, r). (ps ! g, ps ! r)) ?m" by (rule res)
qed

text \<open>
A run on which the draw of C2 returns.
\<close>

theorem draw_bijection_witness:
  "rearranges rev [alice, carol]
   \<and> list_all (partial_matching 2) (scan_trace 2 (rev (filter_valid_pairs [alice, carol])) [])
   \<and> scan_trace 2 (rev (filter_valid_pairs [alice, carol])) [] = [[(1, 0)], [(1, 0), (0, 1)]]
   \<and> secret_santa_draw rev [alice, carol] = Inr [(carol, alice), (alice, carol)]
   \<and> distinct (keys (draw_matched rev [alice, carol]))
   \<and> set (keys (draw_matched rev [alice, carol])) = {0..<2}
   \<and> distinct (vals (draw_matched rev [alice, carol]))
   \<and> set (vals (draw_matched rev [alice, carol])) = {0..<2}"
proof -
  have h: "rearranges rev [alice, carol]" by (rule rearranges_rev)
  have t: "scan_trace 2 (rev (filter_valid_pairs [alice, carol])) [] = [[(1, 0)], [(1, 0), (0, 1)]]"
    by code_simp
  have l: "length [alice, carol] = 2" by simp
  show ?thesis
    using h t draw_alice_carol draw_bijection[OF h, unfolded l]
    by (simp add: list_all_iff)
qed

text \<open>
  C3. The draw raises the infeasible-draw error exactly when the greedy scan of all the
  shuffled candidate pairs leaves fewer than N entries; otherwise it returns, with no
  error, an assignment of N pairs, so a partial assignment is never returned.
\<close>

theorem draw_error_iff:
  assumes "rearranges shuffle ps"
  shows "(secret_santa_draw shuffle ps = Inl DrawInfeasible
           \<longleftrightarrow> length (scan_all (shuffle (filter_valid_pairs ps)) []) < length ps)
     \<and> (secret_santa_draw shuffle ps = Inl DrawInfeasible
         \<or> (\<exists>res. secret_santa_draw shuffle ps = Inr res \<and> length res = length ps))"
proof -
  have "length (draw_matched shuffle ps) \<le> length ps"
    by (rule draw_matched_length_le[OF assms])
  then show ?thesis
    using draw_success[OF assms] draw_matched_scan_all[OF assms] by auto
qed

text \<open>
Two runs for C3: one that raises and one that returns.
\<close>

theorem draw_error_iff_witness:
  "rearranges rev [alice, bob]
   \<and> secret_santa_draw rev [alice, bob] = Inl DrawInfeasible
   \<and> length (scan_all (rev (filter_valid_pairs [alice, bob])) []) < length [alice, bob]
   \<and> rearranges rev [alice, carol]
   \<and> \<not> length (scan_all (rev (filter_valid_pairs [alice, carol])) []) < length [alice, carol]
   \<and> (\<exists>res. secret_santa_draw rev [alice, carol] = Inr res \<and> length res = length [alice, carol])"
proof -
  have h1: "rearranges rev [alice, bob]" and h2: "rearranges rev [alice, carol]"
    by (rule rearranges_rev)+
  have e: "secret_santa_draw rev [alice, bob] = Inl DrawInfeasible" by code_simp
  show ?thesis
    using h1 h2 e draw_alice_carol draw_error_iff[OF h1] draw_error_iff[OF h2] by simp
qed




text \<open>
  C6. There are participants with a complete valid assignment and a shuffle outcome on
  which the draw raises the infeasible-draw error: rows of three different categories,
  where 0 gives to 1, 1 to 2 and 2 to 0 is valid, but the scan first commits (0, 1) and
  (1, 0) and is left with participant 2 alone.
\<close>

theorem greedy_incomplete:
  "\<exists>ps shuffle f. rearranges shuffle ps \<and> perfect_matching ps f
     \<and> secret_santa_draw shuffle ps = Inl DrawInfeasible"
proof -
  have "rearranges trap_order [alice, carol, erin]"
    by (simp add: rearranges_def trap_order_mset)
  then show ?thesis using trap_perfect trap_run by blast
qed

text \<open>
  C7. Two participants of different identities and the same category: the draw raises
  the infeasible-draw error for every shuffle outcome. Four participants of different
  identities, two in one category and two in another: the draw returns an assignment
  of four pairs for every shuffle outcome.
\<close>

theorem feasibility_examples:
  "(rearranges shuffle [p, q] \<and> (NOM p, Prenom p) \<noteq> (NOM q, Prenom q) \<and> Categorie p = Categorie q
      \<longrightarrow> secret_santa_draw shuffle [p, q] = Inl DrawInfeasible)
   \<and> (rearranges shuffle' ps \<and> length ps = 4
        \<and> distinct (map (\<lambda>p. (NOM p, Prenom p)) ps)
        \<and> length (filter (\<lambda>p. Categorie p = a) ps) = 2
        \<and> length (filter (\<lambda>p. Categorie p = b) ps) = 2 \<and> a \<noteq> b
      \<longrightarrow> (\<exists>res. secret_santa_draw shuffle' ps = Inr res \<and> length res = 4))"
proof (intro conjI impI)
  assume h: "rearranges shuffle [p, q] \<and> (NOM p, Prenom p) \<noteq> (NOM q, Prenom q)
     \<and> Categorie p = Categorie q"
  then have "set (filter_valid_pairs [p, q]) = {}"
    unfolding filter_valid_pairs_set valid_pair_def by (auto simp: nth_Cons')
  then have e: "filter_valid_pairs [p, q] = []" by (simp only: set_empty)
  with h have "shuffle [] = []" by (simp add: rearranges_def)
  with e show "secret_santa_draw shuffle [p, q] = Inl DrawInfeasible"
    by (simp add: secret_santa_draw_def draw_matched_def)
next
  assume h: "rearranges shuffle' ps \<and> length ps = 4
        \<and> distinct (map (\<lambda>p. (NOM p, Prenom p)) ps)
        \<and> length (filter (\<lambda>p. Categorie p = a) ps) = 2
        \<and> length (filter (\<lambda>p. Categorie p = b) ps) = 2 \<and> a \<noteq> b"
  then have "length (draw_matched shuffle' ps) = length ps"
    by (intro two_categories_complete[of shuffle' ps a b]) simp_all
  then show "\<exists>res. secret_santa_draw shuffle' ps = Inr res \<and> length res = 4"
    using h draw_success[of shuffle' ps] by simp
qed

text \<open>
Two adults for the first part of C7, two adults and two children for the second.
\<close>

theorem feasibility_examples_witness:
  "rearranges rev [alice, bob] \<and> (NOM alice, Prenom alice) \<noteq> (NOM bob, Prenom bob)
   \<and> Categorie alice = Categorie bob
   \<and> secret_santa_draw rev [alice, bob] = Inl DrawInfeasible
   \<and> rearranges rev [alice, bob, carol, dave] \<and> length [alice, bob, carol, dave] = 4
   \<and> distinct (map (\<lambda>p. (NOM p, Prenom p)) [alice, bob, carol, dave])
   \<and> length (filter (\<lambda>p. Categorie p = Some ''Adult'') [alice, bob, carol, dave]) = 2
   \<and> length (filter (\<lambda>p. Categorie p = Some ''Child'') [alice, bob, carol, dave]) = 2
   \<and> Some ''Adult'' \<noteq> Some ''Child''
   \<and> (\<exists>res. secret_santa_draw rev [alice, bob, carol, dave] = Inr res \<and> length res = 4)"
proof -
  have h1: "rearranges rev [alice, bob] \<and> (NOM alice, Prenom alice) \<noteq> (NOM bob, Prenom bob)
     \<and> Categorie alice = Categorie bob"
    by (simp add: rearranges_rev alice_def bob_def)
  have h2: "rearranges rev [alice, bob, carol, dave] \<and> length [alice, bob, carol, dave] = 4
     \<and> distinct (map (\<lambda>p. (NOM p, Prenom p)) [alice, bob, carol, dave])
     \<and> length (filter (\<lambda>p. Categorie p = Some ''Adult'') [alice, bob, carol, dave]) = 2
     \<and> length (filter (\<lambda>p. Categorie p = Some ''Child'') [alice, bob, carol, dave]) = 2
     \<and> Some ''Adult'' \<noteq> Some ''Child''"
    by (simp add: rearranges_rev alice_def bob_def carol_def dave_def)
  note t = feasibility_examples[of rev alice bob rev "[alice, bob, carol, dave]"
      "Some ''Adult''" "Some ''Child''"]
  from t h1 have c1: "secret_santa_draw rev [alice, bob] = Inl DrawInfeasible" by blast
  from t h2 have c2: "\<exists>res. secret_santa_draw rev [alice, bob, carol, dave] = Inr res \<and> length res = 4"
    by blast
  show ?thesis using h1 h2 c1 c2 by blast
qed





text \<open>
  C10. On the empty frame the draw returns the empty list of pairs for every shuffle
  outcome: the size test of line 60 compares 0 with 0.
\<close>

theorem empty_draw:
  "rearranges shuffle [] \<Longrightarrow> secret_santa_draw shuffle [] = Inr []"
  by (simp add: rearranges_def filter_valid_pairs_def iterrows_def secret_santa_draw_def
      draw_matched_def)

text \<open>
The hypothesis of C10 holds for a shuffle.
\<close>

theorem empty_draw_witness:
  "rearranges rev [] \<and> secret_santa_draw rev [] = Inr []"
proof -
  have h: "rearranges rev []" by (rule rearranges_rev)
  show ?thesis using h empty_draw[OF h] by simp
qed

end
